theory Spec2Isabelle
  imports Complex_Main
begin

section \<open>EARL agent (earl.py): a shallow embedding\<close>

text \<open>
  Python integers are modelled as \<^typ>\<open>int\<close>. Python floats are modelled as exact reals
  (\<^typ>\<open>real\<close>): the rounding of binary floating point, its overflow to infinity and the
  \<open>OverflowError\<close> of \<open>**\<close> are outside the model. The theorems below are therefore about
  what the code computes and writes (which expression, which fields, under which guard,
  from which inputs), and none of them asserts a numeric identity that holds for the reals
  and fails for the rounded results, such as a list of quotients summing to exactly 1 or a
  variance being exactly 0. Every place where the source can otherwise raise is a branch
  returning \<open>Inl\<close>: a division or a modulo by zero, a list index out of range, and an
  exception of a caller-supplied action or fitness function.
\<close>

subsection \<open>Errors, the ambient world, the random source\<close>

datatype error = ZeroDivisionError | IndexError | Raised string

text \<open>
  The world outside the agent: the environment the actions act on and the fitness function
  reads, and the module-level pseudo-random generator, an infinite sequence of draws of
  \<open>random.random()\<close> with a cursor on the next one.
\<close>

record 'e world =
  env :: 'e
  draws :: "nat \<Rightarrow> real"
  cursor :: nat

type_synonym 'e action = "'e world \<Rightarrow> error + 'e world"

type_synonym 'e fitness = "'e world \<Rightarrow> error + (real \<times> 'e world)"

definition random_random :: "'e world \<Rightarrow> real \<times> 'e world" where
  "random_random w = (draws w (cursor w), w\<lparr>cursor := cursor w + 1\<rparr>)"

text \<open>\<open>random.uniform(a, b)\<close> is \<open>a + (b - a) * random()\<close>.\<close>

definition random_uniform :: "real \<Rightarrow> real \<Rightarrow> 'e world \<Rightarrow> real \<times> 'e world" where
  "random_uniform a b w = (case random_random w of (r, w1) \<Rightarrow> (a + (b - a) * r, w1))"

text \<open>Python's \<open>/\<close>: true division, raising on a zero divisor.\<close>

definition truediv :: "real \<Rightarrow> real \<Rightarrow> error + real" where
  "truediv x y = (if y = 0 then Inl ZeroDivisionError else Inr (x / y))"

text \<open>A list comprehension whose element expression can raise.\<close>

fun comprehension :: "('a \<Rightarrow> error + 'b) \<Rightarrow> 'a list \<Rightarrow> error + 'b list" where
  "comprehension f [] = Inr []"
| "comprehension f (x # xs) =
     (case f x of
        Inl e \<Rightarrow> Inl e
      | Inr y \<Rightarrow> (case comprehension f xs of Inl e \<Rightarrow> Inl e | Inr ys \<Rightarrow> Inr (y # ys)))"

subsection \<open>The agent\<close>

record 'e EARL_Agent =
  action_space :: "'e action list"
  weight_map :: "real list"
  alpha :: real
  fitness_func :: "'e fitness"
  last_fitness :: real
  mutation_step :: int
  weight_variance_threshold :: real
  min_mutation_step :: int
  max_mutation_step :: int
  mutation_strength :: real
  history :: "real list"
  history_bias_strength :: real
  history_decay_factor :: real
  ticks :: int

text \<open>\<open>_normalize\<close> (earl.py 55-68).\<close>

definition normalize_list :: "real list \<Rightarrow> error + real list" where
  "normalize_list l =
     (let total = sum_list l in
      if total \<noteq> 0 then comprehension (\<lambda>i. truediv i total) l
      else (let n = length l in comprehension (\<lambda>_. truediv 1 (real n)) [0..<n]))"

text \<open>\<open>_variance\<close> (earl.py 70-80).\<close>

definition variance :: "real list \<Rightarrow> error + real" where
  "variance l =
     (if l = [] then Inr 0
      else (case truediv (sum_list l) (real (length l)) of
              Inl e \<Rightarrow> Inl e
            | Inr mean \<Rightarrow> truediv (sum_list (map (\<lambda>x. (x - mean)\<^sup>2) l)) (real (length l))))"

text \<open>\<open>[random.random() for action in self.action_space]\<close> (earl.py 88).\<close>

fun random_list :: "'a list \<Rightarrow> 'e world \<Rightarrow> real list \<times> 'e world" where
  "random_list [] w = ([], w)"
| "random_list (x # xs) w =
     (case random_random w of (r, w1) \<Rightarrow>
        (case random_list xs w1 of (rs, w2) \<Rightarrow> (r # rs, w2)))"

text \<open>\<open>_generate_weight_map\<close> (earl.py 82-89).\<close>

definition generate_weight_map :: "'e action list \<Rightarrow> 'e world \<Rightarrow> error + (real list \<times> 'e world)" where
  "generate_weight_map acts w =
     (case random_list acts w of (weights, w1) \<Rightarrow>
        (case normalize_list weights of Inl e \<Rightarrow> Inl e | Inr wm \<Rightarrow> Inr (wm, w1)))"

text \<open>\<open>__init__\<close> (earl.py 34-53); the arguments in the order of the source.\<close>

definition init ::
  "'e action list \<Rightarrow> 'e fitness \<Rightarrow> real \<Rightarrow> real \<Rightarrow> int \<Rightarrow> int \<Rightarrow> real \<Rightarrow> real \<Rightarrow> real \<Rightarrow>
     'e world \<Rightarrow> error + ('e EARL_Agent \<times> 'e world)" where
  "init acts fit wvt ms_strength min_ms max_ms hbs hdf al w =
     (case generate_weight_map acts w of
        Inl e \<Rightarrow> Inl e
      | Inr (wm, w1) \<Rightarrow>
          (case fit w1 of
             Inl e \<Rightarrow> Inl e
           | Inr (f, w2) \<Rightarrow>
               Inr (\<lparr>action_space = acts, weight_map = wm, alpha = al, fitness_func = fit,
                     last_fitness = f, mutation_step = min_ms,
                     weight_variance_threshold = wvt, min_mutation_step = min_ms,
                     max_mutation_step = max_ms, mutation_strength = ms_strength,
                     history = map (\<lambda>_. 0) acts, history_bias_strength = hbs,
                     history_decay_factor = hdf, ticks = 0\<rparr>, w2)))"

text \<open>\<open>_adjust_mutation_step\<close> (earl.py 126-136).\<close>

definition adjust_mutation_step :: "'e EARL_Agent \<Rightarrow> error + 'e EARL_Agent" where
  "adjust_mutation_step a =
     (case variance (weight_map a) of
        Inl e \<Rightarrow> Inl e
      | Inr v \<Rightarrow>
          if v < weight_variance_threshold a
          then Inr (a\<lparr>mutation_step := max (min_mutation_step a) (mutation_step a - 1)\<rparr>)
          else Inr (a\<lparr>mutation_step := min (max_mutation_step a) (mutation_step a + 1)\<rparr>))"

text \<open>\<open>_mutate_weight_map\<close> (earl.py 138-147): the loop over \<open>range(len(self.weight_map))\<close>.\<close>

fun mutate_loop :: "nat list \<Rightarrow> 'e EARL_Agent \<Rightarrow> 'e world \<Rightarrow> error + ('e EARL_Agent \<times> 'e world)" where
  "mutate_loop [] a w = Inr (a, w)"
| "mutate_loop (i # rest) a w =
     (if i < length (weight_map a) then
        (case random_uniform (- mutation_strength a) (mutation_strength a) w of (u, w1) \<Rightarrow>
           mutate_loop rest
             (a\<lparr>weight_map := (weight_map a)[i := min 1 (max 0 (weight_map a ! i + u))]\<rparr>) w1)
      else Inl IndexError)"

definition mutate_weight_map :: "'e EARL_Agent \<Rightarrow> 'e world \<Rightarrow> error + ('e EARL_Agent \<times> 'e world)" where
  "mutate_weight_map a w = mutate_loop [0..<length (weight_map a)] a w"

text \<open>\<open>_adjust_weight_map\<close> (earl.py 149-167): the loop over the fired indices, then the whole.\<close>

fun adjust_loop :: "real \<Rightarrow> nat list \<Rightarrow> 'e EARL_Agent \<Rightarrow> error + 'e EARL_Agent" where
  "adjust_loop weight_modifier [] a = Inr a"
| "adjust_loop weight_modifier (index # rest) a =
     (if index < length (history a) then
        (let a1 = a\<lparr>history := (history a)[index := history a ! index * history_decay_factor a]\<rparr>;
             history_bias = 1 + (history a1 ! index * history_bias_strength a1)
         in if index < length (weight_map a1) then
              adjust_loop weight_modifier rest
                (a1\<lparr>weight_map := (weight_map a1)[index :=
                      min 1 (max 0 (weight_map a1 ! index
                                      + (weight_modifier * alpha a1 * history_bias)))]\<rparr>)
            else Inl IndexError)
      else Inl IndexError)"

definition adjust_weight_map :: "'e EARL_Agent \<Rightarrow> real \<Rightarrow> nat list \<Rightarrow> error + 'e EARL_Agent" where
  "adjust_weight_map a delta_fitness indices =
     (if indices = [] then Inr a
      else (case truediv delta_fitness (real (length indices)) of
              Inl e \<Rightarrow> Inl e
            | Inr weight_modifier \<Rightarrow>
                (case adjust_loop weight_modifier indices a of
                   Inl e \<Rightarrow> Inl e
                 | Inr a1 \<Rightarrow>
                     (case normalize_list (weight_map a1) of
                        Inl e \<Rightarrow> Inl e
                      | Inr wm \<Rightarrow> Inr (a1\<lparr>weight_map := wm\<rparr>)))))"

subsection \<open>The tick\<close>

text \<open>
  The sampling loop of \<open>tick\<close> (earl.py 104-108): one draw per weight, in index order; an
  index whose draw is below its weight is appended to \<open>indices\<close> and its action is called.
\<close>

fun sample_loop ::
  "'e action list \<Rightarrow> (nat \<times> real) list \<Rightarrow> nat list \<Rightarrow> 'e world \<Rightarrow> error + (nat list \<times> 'e world)" where
  "sample_loop acts [] indices w = Inr (indices, w)"
| "sample_loop acts ((i, weight) # rest) indices w =
     (case random_random w of (r, w1) \<Rightarrow>
        if r < weight then
          (if i < length acts then
             (case (acts ! i) w1 of
                Inl e \<Rightarrow> Inl e
              | Inr w2 \<Rightarrow> sample_loop acts rest (indices @ [i]) w2)
           else Inl IndexError)
        else sample_loop acts rest indices w1)"

text \<open>The two history loops of \<open>tick\<close> (earl.py 117-122).\<close>

fun history_loop :: "bool \<Rightarrow> nat list \<Rightarrow> real list \<Rightarrow> error + real list" where
  "history_loop improved [] h = Inr h"
| "history_loop improved (index # rest) h =
     (if index < length h then
        history_loop improved rest (h[index := (if improved then h ! index + 1 else 0)])
      else Inl IndexError)"

text \<open>
  \<open>tick\<close> up to the end of the sampling loop (earl.py 99-108): the agent after the
  mutation-step adjustment and the conditional mutation, the fired indices, and the world
  after the draws and the actions.
\<close>

definition tick_sample :: "'e EARL_Agent \<Rightarrow> 'e world \<Rightarrow> error + ('e EARL_Agent \<times> nat list \<times> 'e world)" where
  "tick_sample a w =
     (case adjust_mutation_step a of
        Inl e \<Rightarrow> Inl e
      | Inr a1 \<Rightarrow>
          if mutation_step a1 = 0 then Inl ZeroDivisionError
          else (case (if ticks a1 mod mutation_step a1 = 0 then mutate_weight_map a1 w
                      else Inr (a1, w)) of
                  Inl e \<Rightarrow> Inl e
                | Inr (a2, w2) \<Rightarrow>
                    (case sample_loop (action_space a2) (enumerate 0 (weight_map a2)) [] w2 of
                       Inl e \<Rightarrow> Inl e
                     | Inr (indices, w3) \<Rightarrow> Inr (a2, indices, w3))))"

text \<open>The rest of \<open>tick\<close> (earl.py 110-124), from the fitness probe on.\<close>

definition tick_update :: "'e EARL_Agent \<Rightarrow> nat list \<Rightarrow> 'e world \<Rightarrow> error + ('e EARL_Agent \<times> 'e world)" where
  "tick_update a indices w =
     (case fitness_func a w of
        Inl e \<Rightarrow> Inl e
      | Inr (fitness, w1) \<Rightarrow>
          (let delta_fitness = fitness - last_fitness a in
           case adjust_weight_map a delta_fitness indices of
             Inl e \<Rightarrow> Inl e
           | Inr a1 \<Rightarrow>
               (let a2 = a1\<lparr>last_fitness := fitness\<rparr> in
                case history_loop (delta_fitness > 0) indices (history a2) of
                  Inl e \<Rightarrow> Inl e
                | Inr h \<Rightarrow> Inr (a2\<lparr>history := h, ticks := ticks a2 + 1\<rparr>, w1))))"

text \<open>\<open>tick\<close> (earl.py 91-124).\<close>

definition tick :: "'e EARL_Agent \<Rightarrow> 'e world \<Rightarrow> error + ('e EARL_Agent \<times> 'e world)" where
  "tick a w =
     (case tick_sample a w of
        Inl e \<Rightarrow> Inl e
      | Inr (a1, indices, w1) \<Rightarrow> tick_update a1 indices w1)"

text \<open>The caller's loop: \<open>n\<close> calls of \<open>tick\<close>, stopping at the first exception.\<close>

fun run_ticks :: "nat \<Rightarrow> 'e EARL_Agent \<Rightarrow> 'e world \<Rightarrow> error + ('e EARL_Agent \<times> 'e world)" where
  "run_ticks 0 a w = Inr (a, w)"
| "run_ticks (Suc n) a w =
     (case tick a w of Inl e \<Rightarrow> Inl e | Inr (a1, w1) \<Rightarrow> run_ticks n a1 w1)"

subsection \<open>A concrete scenario\<close>

text \<open>
  An environment holding a counter, an action that increments it, a fitness function that
  reads it, a random source that always draws \<open>r\<close>, and an agent over two such actions in
  the middle of a run.
\<close>

definition bump :: "int action" where
  "bump w = Inr (w\<lparr>env := env w + 1\<rparr>)"

definition probe :: "int fitness" where
  "probe w = Inr (real_of_int (env w), w)"

definition still :: "real \<Rightarrow> int world" where
  "still r = \<lparr>env = 0, draws = (\<lambda>_. r), cursor = 0\<rparr>"

definition learner :: "int EARL_Agent" where
  "learner = \<lparr>action_space = [bump, bump], weight_map = [1 / 4, 3 / 4], alpha = 1,
     fitness_func = probe, last_fitness = 0, mutation_step = 4,
     weight_variance_threshold = 1 / 2, min_mutation_step = 3, max_mutation_step = 10,
     mutation_strength = 1 / 10, history = [0, 2], history_bias_strength = 1 / 10,
     history_decay_factor = 9 / 10, ticks = 1\<rparr>"

text \<open>The same agent with a single action, and the agent \<open>__init__\<close> builds when every draw is 1/4.\<close>

definition soloist :: "int EARL_Agent" where
  "soloist = learner\<lparr>action_space := [bump], weight_map := [1], history := [0]\<rparr>"

definition fresh :: "int EARL_Agent" where
  "fresh = \<lparr>action_space = [bump, bump], weight_map = [1 / 2, 1 / 2], alpha = 1,
     fitness_func = probe, last_fitness = 0, mutation_step = 3,
     weight_variance_threshold = 1 / 2, min_mutation_step = 3, max_mutation_step = 10,
     mutation_strength = 1 / 10, history = [0, 0], history_bias_strength = 1 / 10,
     history_decay_factor = 9 / 10, ticks = 0\<rparr>"

subsection \<open>The invariant of the mutation schedule\<close>

definition schedule_ok :: "int \<Rightarrow> int \<Rightarrow> 'e EARL_Agent \<Rightarrow> bool" where
  "schedule_ok lo hi a \<longleftrightarrow>
     min_mutation_step a = lo \<and> max_mutation_step a = hi
     \<and> lo \<le> mutation_step a \<and> mutation_step a \<le> hi"

subsection \<open>Erasing the environment\<close>

text \<open>
  The result of a step seen through a function on its value; the world without its
  environment; the agent whose actions do nothing and whose fitness function returns \<open>c\<close>,
  over that world; what a run shows of the weight map; and the agents whose own actions
  and fitness function already behave so.
\<close>

definition on_result :: "('a \<Rightarrow> 'b) \<Rightarrow> error + 'a \<Rightarrow> error + 'b" where
  "on_result f r = (case r of Inl e \<Rightarrow> Inl e | Inr x \<Rightarrow> Inr (f x))"

definition erase_world :: "'e world \<Rightarrow> unit world" where
  "erase_world w = \<lparr>env = (), draws = draws w, cursor = cursor w\<rparr>"

definition erase :: "real \<Rightarrow> 'e EARL_Agent \<Rightarrow> unit EARL_Agent" where
  "erase c a =
     \<lparr>action_space = map (\<lambda>_. Inr) (action_space a), weight_map = weight_map a,
      alpha = alpha a, fitness_func = (\<lambda>w. Inr (c, w)), last_fitness = last_fitness a,
      mutation_step = mutation_step a,
      weight_variance_threshold = weight_variance_threshold a,
      min_mutation_step = min_mutation_step a, max_mutation_step = max_mutation_step a,
      mutation_strength = mutation_strength a, history = history a,
      history_bias_strength = history_bias_strength a,
      history_decay_factor = history_decay_factor a, ticks = ticks a\<rparr>"

definition weights_of :: "error + ('e EARL_Agent \<times> 'e world) \<Rightarrow> error + real list" where
  "weights_of r = (case r of Inl e \<Rightarrow> Inl e | Inr (a, w) \<Rightarrow> Inr (weight_map a))"

definition inert :: "real \<Rightarrow> 'e EARL_Agent \<Rightarrow> bool" where
  "inert c a \<longleftrightarrow>
     (\<forall>act\<in>set (action_space a). \<forall>w. act w = Inr w) \<and> (\<forall>w. fitness_func a w = Inr (c, w))"

section \<open>Properties\<close>

subsection \<open>The distribution helpers\<close>

lemma comprehension_Inr:
  "(\<And>x. x \<in> set xs \<Longrightarrow> f x = Inr (g x)) \<Longrightarrow> comprehension f xs = Inr (map g xs)"
  by (induction xs) simp_all

lemma normalize_list_nonzero:
  "sum_list l \<noteq> 0 \<Longrightarrow> normalize_list l = Inr (map (\<lambda>i. i / sum_list l) l)"
  unfolding normalize_list_def Let_def
  by (simp add: comprehension_Inr truediv_def)

lemma normalize_list_zero:
  "sum_list l = 0 \<Longrightarrow> normalize_list l = Inr (replicate (length l) (1 / real (length l)))"
proof -
  assume z: "sum_list l = 0"
  have "comprehension (\<lambda>_. truediv 1 (real (length l))) [0..<length l]
          = Inr (map (\<lambda>_. 1 / real (length l)) [0..<length l])"
    by (rule comprehension_Inr) (auto simp: truediv_def)
  then show ?thesis
    using z unfolding normalize_list_def Let_def by (simp add: map_replicate_const)
qed

lemma normalize_list_total: "\<exists>r. normalize_list l = Inr r"
  by (cases "sum_list l = 0") (simp_all add: normalize_list_zero normalize_list_nonzero)

lemma variance_nonempty:
  "l \<noteq> [] \<Longrightarrow> variance l =
     Inr (sum_list (map (\<lambda>x. (x - sum_list l / real (length l))\<^sup>2) l) / real (length l))"
  by (simp add: variance_def truediv_def)

lemma variance_total: "\<exists>v. variance l = Inr v"
  by (cases "l = []") (simp_all add: variance_nonempty, simp add: variance_def)

subsection \<open>What each step writes\<close>

lemma adjust_mutation_step_Inr:
  "\<exists>v. variance (weight_map a) = Inr v \<and>
     adjust_mutation_step a =
       Inr (a\<lparr>mutation_step :=
                (if v < weight_variance_threshold a
                 then max (min_mutation_step a) (mutation_step a - 1)
                 else min (max_mutation_step a) (mutation_step a + 1))\<rparr>)"
proof -
  obtain v where v: "variance (weight_map a) = Inr v" using variance_total by blast
  then show ?thesis by (auto simp: adjust_mutation_step_def)
qed

lemma mutate_loop_frame:
  "mutate_loop is a w = Inr (a', w') \<Longrightarrow>
     \<exists>wm. a' = a\<lparr>weight_map := wm\<rparr> \<and> length wm = length (weight_map a)"
proof (induction "is" arbitrary: a w)
  case Nil
  then have "a' = a\<lparr>weight_map := weight_map a\<rparr>" by simp
  then show ?case by blast
next
  case (Cons i rest)
  show ?case
  proof (cases "i < length (weight_map a)")
    case False
    with Cons.prems show ?thesis by simp
  next
    case True
    obtain u w1 where u: "random_uniform (- mutation_strength a) (mutation_strength a) w = (u, w1)"
      by (cases "random_uniform (- mutation_strength a) (mutation_strength a) w")
    let ?b = "a\<lparr>weight_map := (weight_map a)[i := min 1 (max 0 (weight_map a ! i + u))]\<rparr>"
    from Cons.prems True u have "mutate_loop rest ?b w1 = Inr (a', w')" by simp
    from Cons.IH [OF this] show ?thesis by auto
  qed
qed

lemma mutate_weight_map_frame:
  "mutate_weight_map a w = Inr (a', w') \<Longrightarrow>
     \<exists>wm. a' = a\<lparr>weight_map := wm\<rparr> \<and> length wm = length (weight_map a)"
  unfolding mutate_weight_map_def by (rule mutate_loop_frame)

lemma adjust_loop_frame:
  "adjust_loop m is a = Inr a' \<Longrightarrow>
     \<exists>wm h. a' = a\<lparr>weight_map := wm, history := h\<rparr>
       \<and> length wm = length (weight_map a) \<and> length h = length (history a)"
proof (induction "is" arbitrary: a)
  case Nil
  then have "a' = a\<lparr>weight_map := weight_map a, history := history a\<rparr>" by simp
  then show ?case by blast
next
  case (Cons i rest)
  let ?a1 = "a\<lparr>history := (history a)[i := history a ! i * history_decay_factor a]\<rparr>"
  let ?b = "?a1\<lparr>weight_map := (weight_map ?a1)[i :=
              min 1 (max 0 (weight_map ?a1 ! i
                 + (m * alpha ?a1 * (1 + (history ?a1 ! i * history_bias_strength ?a1)))))]\<rparr>"
  from Cons.prems have "adjust_loop m rest ?b = Inr a'"
    by (simp add: Let_def split: if_splits)
  from Cons.IH [OF this] show ?case by auto
qed

lemma adjust_loop_error: "adjust_loop m is a = Inl e \<Longrightarrow> e = IndexError"
  by (induction "is" arbitrary: a) (auto simp: Let_def split: if_splits)

lemma adjust_weight_map_frame:
  "adjust_weight_map a d is = Inr a' \<Longrightarrow>
     \<exists>wm h. a' = a\<lparr>weight_map := wm, history := h\<rparr> \<and> length h = length (history a)"
proof -
  assume h: "adjust_weight_map a d is = Inr a'"
  show ?thesis
  proof (cases "is = []")
    case True
    with h have "a' = a\<lparr>weight_map := weight_map a, history := history a\<rparr>"
      by (simp add: adjust_weight_map_def)
    then show ?thesis by blast
  next
    case False
    with h obtain a1 r where l: "adjust_loop (d / real (length is)) is a = Inr a1"
      and a': "a' = a1\<lparr>weight_map := r\<rparr>"
      by (auto simp: adjust_weight_map_def truediv_def split: sum.splits)
    from adjust_loop_frame [OF l] obtain wm h1 where
      "a1 = a\<lparr>weight_map := wm, history := h1\<rparr>" "length h1 = length (history a)" by blast
    with a' have "a' = a\<lparr>weight_map := r, history := h1\<rparr> \<and> length h1 = length (history a)"
      by simp
    then show ?thesis by blast
  qed
qed

lemma adjust_weight_map_error: "adjust_weight_map a d is = Inl e \<Longrightarrow> e = IndexError"
proof -
  assume h: "adjust_weight_map a d is = Inl e"
  show ?thesis
  proof (cases "is = []")
    case True
    with h show ?thesis by (simp add: adjust_weight_map_def)
  next
    case False
    then have t: "truediv d (real (length is)) = Inr (d / real (length is))"
      by (simp add: truediv_def)
    show ?thesis
    proof (cases "adjust_loop (d / real (length is)) is a")
      case (Inl e')
      with h False t have "e = e'" by (simp add: adjust_weight_map_def)
      with Inl show ?thesis by (simp add: adjust_loop_error)
    next
      case (Inr a1)
      obtain r where "normalize_list (weight_map a1) = Inr r"
        using normalize_list_total by blast
      with h False t Inr show ?thesis by (simp add: adjust_weight_map_def)
    qed
  qed
qed

lemma history_loop_length: "history_loop b is h = Inr h' \<Longrightarrow> length h' = length h"
  by (induction "is" arbitrary: h) (auto split: if_splits)

lemma tick_sample_frame:
  "tick_sample a w = Inr (a2, indices, w2) \<Longrightarrow>
     \<exists>a1 wm. adjust_mutation_step a = Inr a1 \<and> mutation_step a1 \<noteq> 0
        \<and> a2 = a1\<lparr>weight_map := wm\<rparr>
        \<and> length wm = length (weight_map a)
        \<and> (ticks a1 mod mutation_step a1 \<noteq> 0 \<longrightarrow> wm = weight_map a)"
proof -
  assume h: "tick_sample a w = Inr (a2, indices, w2)"
  obtain v a1 where a1: "adjust_mutation_step a = Inr a1"
    and a1_def: "a1 = a\<lparr>mutation_step :=
                (if v < weight_variance_threshold a
                 then max (min_mutation_step a) (mutation_step a - 1)
                 else min (max_mutation_step a) (mutation_step a + 1))\<rparr>"
    using adjust_mutation_step_Inr [of a] by blast
  have wm1: "weight_map a1 = weight_map a" by (simp add: a1_def)
  from h a1 have nz: "mutation_step a1 \<noteq> 0"
    by (auto simp: tick_sample_def split: if_splits)
  show ?thesis
  proof (cases "ticks a1 mod mutation_step a1 = 0")
    case True
    with h a1 nz obtain w1 where m: "mutate_weight_map a1 w = Inr (a2, w1)"
      by (auto simp: tick_sample_def split: sum.splits)
    from mutate_weight_map_frame [OF m] a1 nz wm1 True show ?thesis by auto
  next
    case False
    with h a1 nz have "a2 = a1" by (auto simp: tick_sample_def split: sum.splits)
    then have "a2 = a1\<lparr>weight_map := weight_map a\<rparr>" using wm1 by simp
    with a1 nz show ?thesis by blast
  qed
qed

lemma tick_update_frame:
  "tick_update a indices w = Inr (a', w') \<Longrightarrow>
     \<exists>wm h fitness. a' = a\<lparr>weight_map := wm, history := h,
                       last_fitness := fitness, ticks := ticks a + 1\<rparr>
        \<and> length h = length (history a)"
proof -
  assume h: "tick_update a indices w = Inr (a', w')"
  then obtain fitness w1 where f: "fitness_func a w = Inr (fitness, w1)"
    by (auto simp: tick_update_def split: sum.splits)
  from h f obtain a1 where
    a1: "adjust_weight_map a (fitness - last_fitness a) indices = Inr a1"
    by (auto simp: tick_update_def Let_def split: sum.splits)
  from h f a1 obtain hh where
    hh: "history_loop (fitness - last_fitness a > 0) indices (history a1) = Inr hh"
    and a': "a' = a1\<lparr>last_fitness := fitness, history := hh, ticks := ticks a1 + 1\<rparr>"
    by (auto simp: tick_update_def Let_def split: sum.splits)
  from adjust_weight_map_frame [OF a1] obtain wm h1 where
    a1_eq: "a1 = a\<lparr>weight_map := wm, history := h1\<rparr>" and l1: "length h1 = length (history a)"
    by blast
  from history_loop_length [OF hh] a1_eq l1 have "length hh = length (history a)" by simp
  moreover have "a' = a\<lparr>weight_map := wm, history := hh,
                       last_fitness := fitness, ticks := ticks a + 1\<rparr>"
    by (simp add: a' a1_eq)
  ultimately show ?thesis by blast
qed

lemma tick_split:
  "tick a w = Inr (a', w') \<Longrightarrow>
     \<exists>a2 indices w2. tick_sample a w = Inr (a2, indices, w2)
        \<and> tick_update a2 indices w2 = Inr (a', w')"
  unfolding tick_def by (auto split: sum.splits)

lemmas scenario_defs =
  tick_def tick_sample_def tick_update_def adjust_mutation_step_def variance_def truediv_def
  learner_def still_def enumerate_eq_zip random_random_def random_uniform_def bump_def probe_def
  adjust_weight_map_def mutate_weight_map_def normalize_list_def init_def generate_weight_map_def
  Let_def power2_eq_square upt_rec

lemma learner_tick_fired:
  "tick learner (still (1 / 2)) =
     Inr (learner\<lparr>weight_map := [1 / 5, 4 / 5], history := [0, 14 / 5], last_fitness := 1,
                  mutation_step := 3, ticks := 2\<rparr>,
          \<lparr>env = 1, draws = (\<lambda>_. 1 / 2), cursor = 2\<rparr>)"
  by (simp add: scenario_defs)

lemma normalize_list_length: "normalize_list l = Inr r \<Longrightarrow> length r = length l"
  by (cases "sum_list l = 0") (auto simp: normalize_list_zero normalize_list_nonzero)

lemma sample_loop_indices:
  "sample_loop acts ps acc w = Inr (indices, w') \<Longrightarrow>
     \<exists>js. indices = acc @ js \<and> set js \<subseteq> fst ` set ps
        \<and> (distinct (map fst ps) \<longrightarrow> distinct js)
        \<and> length js \<le> length ps \<and> (\<forall>j\<in>set js. j < length acts)"
proof (induction ps arbitrary: acc w)
  case Nil
  then show ?case by simp
next
  case (Cons p rest)
  obtain i weight where p: "p = (i, weight)" by (cases p)
  obtain r w1 where r: "random_random w = (r, w1)" by (cases "random_random w")
  show ?case
  proof (cases "r < weight")
    case False
    with Cons.prems p r have "sample_loop acts rest acc w1 = Inr (indices, w')" by simp
    from Cons.IH [OF this] show ?thesis by (auto simp: p)
  next
    case True
    with Cons.prems p r have i: "i < length acts" by (auto split: if_splits)
    with True Cons.prems p r obtain w2 where
      "sample_loop acts rest (acc @ [i]) w2 = Inr (indices, w')"
      by (auto split: sum.splits)
    from Cons.IH [OF this] obtain js where
      js: "indices = (acc @ [i]) @ js" "set js \<subseteq> fst ` set rest"
          "distinct (map fst rest) \<longrightarrow> distinct js" "length js \<le> length rest"
          "\<forall>j\<in>set js. j < length acts"
      by blast
    have "indices = acc @ (i # js)" using js(1) by simp
    moreover have "set (i # js) \<subseteq> fst ` set (p # rest)" using js(2) p by auto
    moreover have "distinct (map fst (p # rest)) \<longrightarrow> distinct (i # js)"
      using js(2,3) p by auto
    moreover have "length (i # js) \<le> length (p # rest)" using js(4) by simp
    moreover have "\<forall>j\<in>set (i # js). j < length acts" using js(5) i by simp
    ultimately show ?thesis by blast
  qed
qed

lemma tick_sample_indices:
  assumes "tick_sample a w = Inr (a2, indices, w2)"
  shows "distinct indices \<and> length indices \<le> length (weight_map a)
         \<and> (\<forall>i\<in>set indices. i < length (weight_map a) \<and> i < length (action_space a))"
proof -
  from tick_sample_frame [OF assms] obtain a1 wm where
    a1: "adjust_mutation_step a = Inr a1" and a2: "a2 = a1\<lparr>weight_map := wm\<rparr>"
    and len: "length wm = length (weight_map a)" by blast
  from adjust_mutation_step_Inr [of a] a1 have acts: "action_space a1 = action_space a"
    by auto
  from assms a1 obtain w1 where
    s: "sample_loop (action_space a2) (enumerate 0 (weight_map a2)) [] w1 = Inr (indices, w2)"
    by (auto simp: tick_sample_def split: if_splits sum.splits)
  from sample_loop_indices [OF s] obtain js where
    js: "indices = js" "set js \<subseteq> fst ` set (enumerate 0 (weight_map a2))"
        "distinct (map fst (enumerate 0 (weight_map a2))) \<longrightarrow> distinct js"
        "length js \<le> length (enumerate 0 (weight_map a2))"
        "\<forall>j\<in>set js. j < length (action_space a2)"
    by auto
  have m: "map fst (enumerate 0 (weight_map a2)) = [0..<length (weight_map a)]"
    by (simp add: a2 len)
  have "fst ` set (enumerate 0 (weight_map a2)) = set (map fst (enumerate 0 (weight_map a2)))"
    by (simp only: set_map)
  also have "\<dots> = {0..<length (weight_map a)}" unfolding m by simp
  finally have st: "fst ` set (enumerate 0 (weight_map a2)) = {0..<length (weight_map a)}" .
  have "distinct indices" using js(1,3) m by simp
  moreover have "length indices \<le> length (weight_map a)" using js(1,4) a2 len by simp
  moreover have "\<forall>i\<in>set indices. i < length (weight_map a) \<and> i < length (action_space a)"
    using js(1,2,5) st a2 acts by auto
  ultimately show ?thesis by blast
qed

lemma tick_frame:
  assumes "tick a w = Inr (a', w')"
  shows "\<exists>ms wm h fitness.
           a' = a\<lparr>mutation_step := ms, weight_map := wm, history := h,
                   last_fitness := fitness, ticks := ticks a + 1\<rparr>
           \<and> length h = length (history a)"
proof -
  from tick_split [OF assms] obtain a2 indices w2 where
    s: "tick_sample a w = Inr (a2, indices, w2)" and u: "tick_update a2 indices w2 = Inr (a', w')"
    by blast
  from tick_sample_frame [OF s] obtain a1 wm where
    a1: "adjust_mutation_step a = Inr a1" and a2: "a2 = a1\<lparr>weight_map := wm\<rparr>"
    by blast
  from adjust_mutation_step_Inr [of a] a1 obtain ms where a1_eq: "a1 = a\<lparr>mutation_step := ms\<rparr>"
    by auto
  from tick_update_frame [OF u] obtain wm' h f where
    a': "a' = a2\<lparr>weight_map := wm', history := h,
                       last_fitness := f, ticks := ticks a2 + 1\<rparr>"
    and lh: "length h = length (history a2)" by blast
  have "a' = a\<lparr>mutation_step := ms, weight_map := wm', history := h,
                   last_fitness := f, ticks := ticks a + 1\<rparr>"
    by (simp add: a' a2 a1_eq)
  moreover have "length h = length (history a)" using lh by (simp add: a2 a1_eq)
  ultimately show ?thesis by blast
qed

lemma init_fields:
  assumes "init acts fit wvt strength min_ms max_ms hbs hdf al w = Inr (a0, w0)"
  shows "action_space a0 = acts \<and> mutation_step a0 = min_ms \<and> min_mutation_step a0 = min_ms
         \<and> max_mutation_step a0 = max_ms \<and> history a0 = map (\<lambda>_. 0) acts \<and> ticks a0 = 0
         \<and> (\<exists>w1. generate_weight_map acts w = Inr (weight_map a0, w1)
                 \<and> fit w1 = Inr (last_fitness a0, w0))"
  using assms unfolding init_def by (auto split: sum.splits)

lemma soloist_sample:
  "tick_sample soloist (still (1 / 2)) =
     Inr (soloist\<lparr>mutation_step := 3\<rparr>, [0], \<lparr>env = 1, draws = (\<lambda>_. 1 / 2), cursor = 1\<rparr>)"
  by (simp add: soloist_def scenario_defs)

lemma fresh_init:
  "init [bump, bump] probe (1 / 2) (1 / 10) 3 10 (1 / 10) (9 / 10) 1 (still (1 / 4))
     = Inr (fresh, \<lparr>env = 0, draws = (\<lambda>_. 1 / 4), cursor = 2\<rparr>)"
  by (simp add: fresh_def scenario_defs)

lemma fresh_tick:
  "tick fresh \<lparr>env = 0, draws = (\<lambda>_. 1 / 4), cursor = 2\<rparr>
     = Inr (fresh\<lparr>last_fitness := 2, history := [1, 1], ticks := 1\<rparr>,
            \<lparr>env = 2, draws = (\<lambda>_. 1 / 4), cursor = 6\<rparr>)"
  by (simp add: fresh_def scenario_defs)

lemma fresh_tick2:
  "tick (fresh\<lparr>last_fitness := 2, history := [1, 1], ticks := 1\<rparr>)
        \<lparr>env = 2, draws = (\<lambda>_. 1 / 4), cursor = 6\<rparr>
     = Inr (fresh\<lparr>last_fitness := 4, history := [19 / 10, 19 / 10], ticks := 2\<rparr>,
            \<lparr>env = 4, draws = (\<lambda>_. 1 / 4), cursor = 8\<rparr>)"
  by (simp add: fresh_def scenario_defs)

lemma fresh_run:
  "run_ticks (Suc (Suc 0)) fresh \<lparr>env = 0, draws = (\<lambda>_. 1 / 4), cursor = 2\<rparr>
     = Inr (fresh\<lparr>last_fitness := 4, history := [19 / 10, 19 / 10], ticks := 2\<rparr>,
            \<lparr>env = 4, draws = (\<lambda>_. 1 / 4), cursor = 8\<rparr>)"
  by (simp add: fresh_tick fresh_tick2)

lemma learner_sample_quiet:
  "tick_sample learner (still (9 / 10)) =
     Inr (learner\<lparr>mutation_step := 3\<rparr>, [], \<lparr>env = 0, draws = (\<lambda>_. 9 / 10), cursor = 2\<rparr>)"
  by (simp add: scenario_defs)

lemma learner_tick_quiet:
  "tick learner (still (9 / 10)) =
     Inr (learner\<lparr>mutation_step := 3, last_fitness := 0, ticks := 2\<rparr>,
          \<lparr>env = 0, draws = (\<lambda>_. 9 / 10), cursor = 2\<rparr>)"
  by (simp add: scenario_defs)

lemma learner_adjust: "adjust_mutation_step learner = Inr (learner\<lparr>mutation_step := 3\<rparr>)"
  by (simp add: scenario_defs)

lemma tick_mutation_step:
  assumes "tick a w = Inr (a', w')"
  shows "\<exists>v. variance (weight_map a) = Inr v \<and>
           mutation_step a' =
             (if v < weight_variance_threshold a
              then max (min_mutation_step a) (mutation_step a - 1)
              else min (max_mutation_step a) (mutation_step a + 1))"
proof -
  from tick_split [OF assms] obtain a2 indices w2 where
    s: "tick_sample a w = Inr (a2, indices, w2)" and u: "tick_update a2 indices w2 = Inr (a', w')"
    by blast
  from tick_sample_frame [OF s] obtain a1 wm where
    a1: "adjust_mutation_step a = Inr a1" and a2: "a2 = a1\<lparr>weight_map := wm\<rparr>"
    by blast
  from tick_update_frame [OF u] obtain wm' h f where
    a': "a' = a2\<lparr>weight_map := wm', history := h,
                       last_fitness := f, ticks := ticks a2 + 1\<rparr>" by blast
  have eq: "mutation_step a' = mutation_step a1" by (simp add: a' a2)
  from adjust_mutation_step_Inr [of a] a1 eq show ?thesis by auto
qed

subsection \<open>The mutation schedule\<close>

text \<open>
  Claim C4. In every tick that completes, the mutation step after the tick is the one the
  adjustment computes from the weight map as it stood before the tick: one less, but not
  below \<open>min_mutation_step\<close>, when the population variance of that weight map is strictly
  below \<open>weight_variance_threshold\<close>, and one more, but not above \<open>max_mutation_step\<close>,
  otherwise. (The adjusted step is also the one the mutation gate of the same tick tests,
  see \<open>tick_sample_def\<close>.)
\<close>

theorem tick_adjusts_mutation_step_first:
  assumes "tick a w = Inr (a', w')"
  shows "\<exists>v. variance (weight_map a) = Inr v \<and>
           mutation_step a' =
             (if v < weight_variance_threshold a
              then max (min_mutation_step a) (mutation_step a - 1)
              else min (max_mutation_step a) (mutation_step a + 1))"
  using assms by (rule tick_mutation_step)

theorem tick_adjusts_mutation_step_first_witness:
  "variance (weight_map learner) = Inr (1 / 16) \<and>
   mutation_step (learner\<lparr>weight_map := [1 / 5, 4 / 5], history := [0, 14 / 5],
                           last_fitness := 1, mutation_step := 3, ticks := 2\<rparr>) = 3"
  using tick_adjusts_mutation_step_first [OF learner_tick_fired]
  by (simp add: learner_def variance_def truediv_def power2_eq_square)

lemma tick_schedule_ok:
  assumes "lo \<le> hi" and "schedule_ok lo hi a" and "tick a w = Inr (a', w')"
  shows "schedule_ok lo hi a'"
proof -
  from tick_frame [OF assms(3)] obtain ms wm h f where
    a': "a' = a\<lparr>mutation_step := ms, weight_map := wm, history := h,
                   last_fitness := f, ticks := ticks a + 1\<rparr>" by blast
  have cfg: "min_mutation_step a' = min_mutation_step a" "max_mutation_step a' = max_mutation_step a"
    by (simp_all add: a')
  from tick_mutation_step [OF assms(3)] assms(1,2) cfg
  show ?thesis unfolding schedule_ok_def by auto
qed

lemma run_ticks_schedule_ok:
  "lo \<le> hi \<Longrightarrow> schedule_ok lo hi a \<Longrightarrow> run_ticks n a w = Inr (a', w') \<Longrightarrow> schedule_ok lo hi a'"
proof (induction n arbitrary: a w)
  case 0
  then show ?case by simp
next
  case (Suc n)
  from Suc.prems(3) obtain a1 w1 where
    t: "tick a w = Inr (a1, w1)" and r: "run_ticks n a1 w1 = Inr (a', w')"
    by (auto split: sum.splits)
  from tick_schedule_ok [OF Suc.prems(1,2) t] have "schedule_ok lo hi a1" .
  from Suc.IH [OF Suc.prems(1) this r] show ?case .
qed

text \<open>
  Claim C5. With \<open>min_mutation_step \<le> max_mutation_step\<close>, a freshly constructed agent
  starts at \<open>min_mutation_step\<close>, and after any number of completed ticks its mutation step
  lies between the two bounds; so does the step the next adjustment writes, which differs
  from the current one by at most 1 (the state a tick leaves behind when it fails later).
\<close>

theorem mutation_step_stays_in_range:
  assumes "min_ms \<le> max_ms"
    and "init acts fit wvt strength min_ms max_ms hbs hdf al w = Inr (a0, w0)"
    and "run_ticks n a0 w0 = Inr (a, w')"
  shows "mutation_step a0 = min_ms
         \<and> min_ms \<le> mutation_step a \<and> mutation_step a \<le> max_ms
         \<and> (\<exists>a1. adjust_mutation_step a = Inr a1
                 \<and> min_ms \<le> mutation_step a1 \<and> mutation_step a1 \<le> max_ms
                 \<and> \<bar>mutation_step a1 - mutation_step a\<bar> \<le> 1)"
proof -
  from init_fields [OF assms(2)] assms(1) have ok0: "schedule_ok min_ms max_ms a0"
    and m0: "mutation_step a0 = min_ms"
    by (simp_all add: schedule_ok_def)
  from run_ticks_schedule_ok [OF assms(1) ok0 assms(3)] have ok: "schedule_ok min_ms max_ms a" .
  obtain v where "adjust_mutation_step a =
       Inr (a\<lparr>mutation_step :=
                (if v < weight_variance_threshold a
                 then max (min_mutation_step a) (mutation_step a - 1)
                 else min (max_mutation_step a) (mutation_step a + 1))\<rparr>)"
    using adjust_mutation_step_Inr [of a] by blast
  with ok assms(1) m0 show ?thesis unfolding schedule_ok_def by auto
qed

theorem mutation_step_stays_in_range_witness:
  "(3::int) \<le> 10
   \<and> mutation_step fresh = 3
   \<and> 3 \<le> mutation_step (fresh\<lparr>last_fitness := 4, history := [19 / 10, 19 / 10], ticks := 2\<rparr>)
   \<and> mutation_step (fresh\<lparr>last_fitness := 4, history := [19 / 10, 19 / 10], ticks := 2\<rparr>) \<le> 10"
proof -
  have le: "(3::int) \<le> 10" by simp
  from mutation_step_stays_in_range [OF le fresh_init fresh_run] show ?thesis by simp
qed

subsection \<open>Construction and the single-action agent\<close>

text \<open>
  Claim C6. Constructing an agent over an empty action space raises no error of its own:
  normalising the empty list evaluates no division and returns the empty list, and the
  constructor returns an agent with an empty weight map and an empty history whenever the
  first fitness probe returns.
\<close>

theorem init_empty_action_space:
  "normalize_list [] = Inr []
   \<and> init [] fit wvt strength min_ms max_ms hbs hdf al w =
       (case fit w of
          Inl e \<Rightarrow> Inl e
        | Inr (f, w') \<Rightarrow>
            Inr (\<lparr>action_space = [], weight_map = [], alpha = al, fitness_func = fit,
                  last_fitness = f, mutation_step = min_ms,
                  weight_variance_threshold = wvt, min_mutation_step = min_ms,
                  max_mutation_step = max_ms, mutation_strength = strength,
                  history = [], history_bias_strength = hbs,
                  history_decay_factor = hdf, ticks = 0\<rparr>, w'))"
  by (simp add: init_def generate_weight_map_def normalize_list_def split: sum.splits)

text \<open>
  Claim C7. For an agent whose weight map has one entry, the sampling loop fires no index or
  index 0 alone; the weight adjustment never raises \<open>ZeroDivisionError\<close> (the division by the
  number of fired indices is evaluated on a non-empty list only, here with divisor 1); and
  \<open>normalize\<close> of a one-element list is \<open>[1]\<close>.
\<close>

theorem single_action_no_division_by_zero:
  assumes "length (weight_map a) = 1" and "tick_sample a w = Inr (a2, indices, w2)"
  shows "(indices = [] \<or> indices = [0])
         \<and> adjust_weight_map a2 delta_fitness indices \<noteq> Inl ZeroDivisionError
         \<and> (indices \<noteq> [] \<longrightarrow> truediv delta_fitness (real (length indices)) = Inr delta_fitness)
         \<and> normalize_list [x] = Inr [1]"
proof -
  from tick_sample_indices [OF assms(2)] assms(1) have
    l: "length indices \<le> 1" and s: "\<forall>i\<in>set indices. i = 0" by auto
  have i: "indices = [] \<or> indices = [0]"
  proof (cases indices)
    case Nil
    then show ?thesis by simp
  next
    case (Cons j js)
    with l s show ?thesis by simp
  qed
  have "adjust_weight_map a2 delta_fitness indices \<noteq> Inl ZeroDivisionError"
    using adjust_weight_map_error [of a2 delta_fitness indices ZeroDivisionError] by auto
  moreover have "indices \<noteq> [] \<longrightarrow> truediv delta_fitness (real (length indices)) = Inr delta_fitness"
    using i by (auto simp: truediv_def)
  moreover have "normalize_list [x] = Inr [1]"
    by (cases "x = 0") (simp_all add: normalize_list_def truediv_def)
  ultimately show ?thesis using i by blast
qed

theorem single_action_no_division_by_zero_witness:
  "length (weight_map soloist) = 1
   \<and> adjust_weight_map (soloist\<lparr>mutation_step := 3\<rparr>) 1 [0] \<noteq> Inl ZeroDivisionError
   \<and> truediv 1 (real (length [0::nat])) = Inr 1
   \<and> normalize_list [5] = Inr [1]"
proof -
  have l: "length (weight_map soloist) = 1" by (simp add: soloist_def learner_def)
  from single_action_no_division_by_zero [OF l soloist_sample, of 1 5] l show ?thesis by simp
qed

subsection \<open>A tick that neither mutates nor fires\<close>

text \<open>
  Claim C10. When the tick counter is not a multiple of the adjusted mutation step and the
  sampling loop fires no action, a completed tick leaves the weight map and the history as
  they were: the agent afterwards is the agent before with \<open>mutation_step\<close>,
  \<open>last_fitness\<close> and \<open>ticks\<close> rewritten, and nothing else.
\<close>

theorem quiet_tick_frame:
  assumes "adjust_mutation_step a = Inr a1"
    and "ticks a mod mutation_step a1 \<noteq> 0"
    and "tick_sample a w = Inr (a2, [], w2)"
    and "tick a w = Inr (a', w')"
  shows "weight_map a' = weight_map a \<and> history a' = history a
         \<and> (\<exists>fitness. fitness_func a w2 = Inr (fitness, w')
               \<and> a' = a\<lparr>mutation_step := mutation_step a1, last_fitness := fitness,
                          ticks := ticks a + 1\<rparr>)"
proof -
  from adjust_mutation_step_Inr [of a] assms(1) obtain ms where
    a1: "a1 = a\<lparr>mutation_step := ms\<rparr>" by auto
  from tick_sample_frame [OF assms(3)] assms(1,2) a1 obtain wm where
    "a2 = a1\<lparr>weight_map := wm\<rparr>" "wm = weight_map a" by auto
  then have a2: "a2 = a1" using a1 by simp
  from assms(3,4) have u: "tick_update a2 [] w2 = Inr (a', w')" by (simp add: tick_def)
  then obtain fitness where f: "fitness_func a2 w2 = Inr (fitness, w')"
    and a': "a' = a2\<lparr>last_fitness := fitness, history := history a2, ticks := ticks a2 + 1\<rparr>"
    by (auto simp: tick_update_def adjust_weight_map_def Let_def split: sum.splits)
  have "a' = a\<lparr>mutation_step := mutation_step a1, last_fitness := fitness,
                          ticks := ticks a + 1\<rparr>"
    by (simp add: a' a2 a1)
  moreover have "fitness_func a w2 = Inr (fitness, w')" using f by (simp add: a2 a1)
  moreover have "weight_map a' = weight_map a" "history a' = history a"
    by (simp_all add: a' a2 a1)
  ultimately show ?thesis by blast
qed

theorem quiet_tick_frame_witness:
  "ticks learner mod mutation_step (learner\<lparr>mutation_step := 3\<rparr>) \<noteq> 0
   \<and> weight_map (learner\<lparr>mutation_step := 3, last_fitness := 0, ticks := 2\<rparr>) = weight_map learner
   \<and> history (learner\<lparr>mutation_step := 3, last_fitness := 0, ticks := 2\<rparr>) = history learner"
proof -
  have g: "ticks learner mod mutation_step (learner\<lparr>mutation_step := 3\<rparr>) \<noteq> 0"
    by (simp add: learner_def)
  from quiet_tick_frame [OF learner_adjust g learner_sample_quiet learner_tick_quiet] g
  show ?thesis by simp
qed

subsection \<open>The history of the fired actions\<close>

lemma adjust_loop_in_range:
  "adjust_loop m is a = Inr a' \<Longrightarrow> i \<in> set is
     \<Longrightarrow> i < length (history a) \<and> i < length (weight_map a)"
proof (induction "is" arbitrary: a)
  case Nil
  then show ?case by simp
next
  case (Cons j rest)
  let ?a1 = "a\<lparr>history := (history a)[j := history a ! j * history_decay_factor a]\<rparr>"
  let ?b = "?a1\<lparr>weight_map := (weight_map ?a1)[j :=
              min 1 (max 0 (weight_map ?a1 ! j
                 + (m * alpha ?a1 * (1 + (history ?a1 ! j * history_bias_strength ?a1)))))]\<rparr>"
  from Cons.prems(1) have j: "j < length (history a)" "j < length (weight_map a)"
    and r: "adjust_loop m rest ?b = Inr a'"
    by (simp_all add: Let_def split: if_splits)
  show ?case
  proof (cases "i = j")
    case True
    with j show ?thesis by simp
  next
    case False
    with Cons.prems(2) have "i \<in> set rest" by simp
    from Cons.IH [OF r this] show ?thesis by simp
  qed
qed

lemma adjust_loop_history:
  "distinct is \<Longrightarrow> adjust_loop m is a = Inr a' \<Longrightarrow> i < length (history a) \<Longrightarrow>
     history a' ! i =
       (if i \<in> set is then history a ! i * history_decay_factor a else history a ! i)"
proof (induction "is" arbitrary: a)
  case Nil
  then show ?case by simp
next
  case (Cons j rest)
  let ?a1 = "a\<lparr>history := (history a)[j := history a ! j * history_decay_factor a]\<rparr>"
  let ?b = "?a1\<lparr>weight_map := (weight_map ?a1)[j :=
              min 1 (max 0 (weight_map ?a1 ! j
                 + (m * alpha ?a1 * (1 + (history ?a1 ! j * history_bias_strength ?a1)))))]\<rparr>"
  from Cons.prems(2) have j: "j < length (history a)" and r: "adjust_loop m rest ?b = Inr a'"
    by (simp_all add: Let_def split: if_splits)
  from Cons.prems(1) have d: "distinct rest" and nj: "j \<notin> set rest" by simp_all
  from Cons.prems(3) have li: "i < length (history ?b)" by simp
  from Cons.IH [OF d r li] have
    "history a' ! i =
       (if i \<in> set rest then history ?b ! i * history_decay_factor ?b else history ?b ! i)" .
  with nj j Cons.prems(3) show ?case by (auto simp: nth_list_update)
qed

lemma history_loop_nth:
  "distinct is \<Longrightarrow> history_loop b is h = Inr h' \<Longrightarrow> i < length h \<Longrightarrow>
     h' ! i = (if i \<in> set is then (if b then h ! i + 1 else 0) else h ! i)"
proof (induction "is" arbitrary: h)
  case Nil
  then show ?case by simp
next
  case (Cons j rest)
  let ?h1 = "h[j := (if b then h ! j + 1 else 0)]"
  from Cons.prems(2) have j: "j < length h" and r: "history_loop b rest ?h1 = Inr h'"
    by (simp_all split: if_splits)
  from Cons.prems(1) have d: "distinct rest" and nj: "j \<notin> set rest" by simp_all
  from Cons.prems(3) have li: "i < length ?h1" by simp
  from Cons.IH [OF d r li] have
    "h' ! i = (if i \<in> set rest then (if b then ?h1 ! i + 1 else 0) else ?h1 ! i)" .
  with nj j Cons.prems(3) show ?case by (auto simp: nth_list_update)
qed

lemma adjust_weight_map_history:
  assumes "distinct is" and "adjust_weight_map a d is = Inr a'" and "i < length (history a)"
  shows "history a' ! i =
           (if i \<in> set is then history a ! i * history_decay_factor a else history a ! i)"
proof (cases "is = []")
  case True
  with assms(2) show ?thesis by (simp add: adjust_weight_map_def)
next
  case False
  with assms(2) obtain a1 r where l: "adjust_loop (d / real (length is)) is a = Inr a1"
    and a': "a' = a1\<lparr>weight_map := r\<rparr>"
    by (auto simp: adjust_weight_map_def truediv_def split: sum.splits)
  from adjust_loop_history [OF assms(1) l assms(3)] a' show ?thesis by simp
qed

lemma learner_sample_fired:
  "tick_sample learner (still (1 / 2)) =
     Inr (learner\<lparr>mutation_step := 3\<rparr>, [1], \<lparr>env = 1, draws = (\<lambda>_. 1 / 2), cursor = 2\<rparr>)"
  by (simp add: scenario_defs)

lemma learner_probe_fired:
  "fitness_func learner \<lparr>env = 1, draws = (\<lambda>_. 1 / 2), cursor = 2\<rparr>
     = Inr (1, \<lparr>env = 1, draws = (\<lambda>_. 1 / 2), cursor = 2\<rparr>)"
  by (simp add: learner_def probe_def)

text \<open>
  Claim C3. In a tick that completes, with \<open>indices\<close> the fired indices of that tick and
  \<open>fitness\<close> the value the fitness function returns after the actions: every fired index
  is an index of the history; the history entry of a fired index afterwards is its entry
  before the tick times \<open>history_decay_factor\<close>, plus 1, when
  \<open>fitness - last_fitness\<close> is positive, and 0 otherwise; every other entry is unchanged.
\<close>

theorem fired_history_update:
  assumes "tick_sample a w = Inr (a2, indices, w2)"
    and "fitness_func a w2 = Inr (fitness, w3)"
    and "tick a w = Inr (a', w')"
  shows "length (history a') = length (history a)
         \<and> (\<forall>i\<in>set indices. i < length (history a))
         \<and> (\<forall>i<length (history a).
               history a' ! i =
                 (if i \<in> set indices
                  then (if fitness - last_fitness a > 0
                        then history a ! i * history_decay_factor a + 1 else 0)
                  else history a ! i))"
proof -
  from tick_sample_frame [OF assms(1)] obtain a1 wm where
    a1: "adjust_mutation_step a = Inr a1" and a2: "a2 = a1\<lparr>weight_map := wm\<rparr>" by blast
  from adjust_mutation_step_Inr [of a] a1 obtain ms where
    a1_eq: "a1 = a\<lparr>mutation_step := ms\<rparr>" by auto
  have a2_eq: "a2 = a\<lparr>mutation_step := ms, weight_map := wm\<rparr>" by (simp add: a2 a1_eq)
  from tick_sample_indices [OF assms(1)] have d: "distinct indices" by blast
  from assms(1,3) have u: "tick_update a2 indices w2 = Inr (a', w')" by (simp add: tick_def)
  have f: "fitness_func a2 w2 = Inr (fitness, w3)" using assms(2) by (simp add: a2_eq)
  let ?delta = "fitness - last_fitness a"
  have lf: "last_fitness a2 = last_fitness a" by (simp add: a2_eq)
  from u f lf obtain a3 where
    a3: "adjust_weight_map a2 ?delta indices = Inr a3"
    by (auto simp: tick_update_def Let_def split: sum.splits)
  from u f lf a3 obtain h where
    h: "history_loop (?delta > 0) indices (history a3) = Inr h"
    and a': "a' = a3\<lparr>last_fitness := fitness, history := h, ticks := ticks a3 + 1\<rparr>"
    by (auto simp: tick_update_def Let_def split: sum.splits)
  from adjust_weight_map_frame [OF a3] have l3: "length (history a3) = length (history a)"
    by (auto simp: a2_eq)
  from history_loop_length [OF h] l3 a' have len: "length (history a') = length (history a)"
    by simp
  have "history a' ! i =
          (if i \<in> set indices
           then (if ?delta > 0 then history a ! i * history_decay_factor a + 1 else 0)
           else history a ! i)" if i: "i < length (history a)" for i
  proof -
    from i have i2: "i < length (history a2)" by (simp add: a2_eq)
    from adjust_weight_map_history [OF d a3 i2] have
      s3: "history a3 ! i =
             (if i \<in> set indices then history a ! i * history_decay_factor a else history a ! i)"
      by (simp add: a2_eq)
    from i l3 have i3: "i < length (history a3)" by simp
    from history_loop_nth [OF d h i3] have
      "h ! i = (if i \<in> set indices then (if ?delta > 0 then history a3 ! i + 1 else 0)
                else history a3 ! i)" .
    with s3 a' show ?thesis by simp
  qed
  moreover have "i < length (history a)" if i: "i \<in> set indices" for i
  proof -
    from i have ne: "indices \<noteq> []" by auto
    with a3 obtain a4 where "adjust_loop (?delta / real (length indices)) indices a2 = Inr a4"
      by (auto simp: adjust_weight_map_def truediv_def split: sum.splits)
    from adjust_loop_in_range [OF this i] show ?thesis by (simp add: a2_eq)
  qed
  ultimately show ?thesis using len by blast
qed

theorem fired_history_update_witness:
  "history (learner\<lparr>weight_map := [1 / 5, 4 / 5], history := [0, 14 / 5], last_fitness := 1,
                     mutation_step := 3, ticks := 2\<rparr>) ! 1
     = history learner ! 1 * history_decay_factor learner + 1
   \<and> history (learner\<lparr>weight_map := [1 / 5, 4 / 5], history := [0, 14 / 5], last_fitness := 1,
                     mutation_step := 3, ticks := 2\<rparr>) ! 0 = history learner ! 0"
  using fired_history_update [OF learner_sample_fired learner_probe_fired learner_tick_fired]
  by (simp add: learner_def)

subsection \<open>Runs from the same seed\<close>

lemma on_result_simps [simp]:
  "on_result f (Inl e) = Inl e" "on_result f (Inr x) = Inr (f x)"
  by (simp_all add: on_result_def)

lemma erase_world_random:
  "random_random (erase_world w) = map_prod id erase_world (random_random w)"
  by (simp add: random_random_def erase_world_def)

lemma erase_world_uniform:
  "random_uniform x y (erase_world w) = map_prod id erase_world (random_uniform x y w)"
  by (simp add: random_uniform_def erase_world_random split: prod.splits)

lemma erase_adjust_mutation_step:
  "adjust_mutation_step (erase c a) = on_result (erase c) (adjust_mutation_step a)"
  by (simp add: adjust_mutation_step_def erase_def split: sum.splits)

lemma erase_mutate_loop:
  "mutate_loop is (erase c a) (erase_world w)
     = on_result (map_prod (erase c) erase_world) (mutate_loop is a w)"
proof (induction "is" arbitrary: a w)
  case Nil
  then show ?case by simp
next
  case (Cons i rest)
  obtain u w1 where u: "random_uniform (- mutation_strength a) (mutation_strength a) w = (u, w1)"
    by (cases "random_uniform (- mutation_strength a) (mutation_strength a) w")
  let ?b = "a\<lparr>weight_map := (weight_map a)[i := min 1 (max 0 (weight_map a ! i + u))]\<rparr>"
  have e: "(erase c a)\<lparr>weight_map := (weight_map a)[i := min 1 (max 0 (weight_map a ! i + u))]\<rparr>
             = erase c ?b" by (simp add: erase_def)
  have f: "weight_map (erase c a) = weight_map a" "mutation_strength (erase c a) = mutation_strength a"
    by (simp_all add: erase_def)
  show ?case
    by (simp add: f erase_world_uniform u e Cons.IH)
qed

lemma erase_sample_loop:
  assumes "\<forall>act\<in>set acts. \<forall>w. act w = Inr w"
  shows "sample_loop (map (\<lambda>_. Inr) acts) ps acc (erase_world w)
           = on_result (map_prod id erase_world) (sample_loop acts ps acc w)"
proof (induction ps arbitrary: acc w)
  case Nil
  then show ?case by simp
next
  case (Cons p rest)
  obtain i weight where p: "p = (i, weight)" by (cases p)
  obtain r w1 where r: "random_random w = (r, w1)" by (cases "random_random w")
  have act: "(acts ! i) w1 = Inr w1" if "i < length acts"
    using assms that by simp
  show ?case
    by (simp add: p erase_world_random r Cons.IH act)
qed

lemma erase_adjust_loop:
  "adjust_loop m is (erase c a) = on_result (erase c) (adjust_loop m is a)"
proof (induction "is" arbitrary: a)
  case Nil
  then show ?case by simp
next
  case (Cons i rest)
  let ?a1 = "a\<lparr>history := (history a)[i := history a ! i * history_decay_factor a]\<rparr>"
  let ?b = "?a1\<lparr>weight_map := (weight_map ?a1)[i :=
              min 1 (max 0 (weight_map ?a1 ! i
                 + (m * alpha ?a1 * (1 + (history ?a1 ! i * history_bias_strength ?a1)))))]\<rparr>"
  have "adjust_loop m (i # rest) (erase c a) =
          (if i < length (history a) \<and> i < length (weight_map a)
           then adjust_loop m rest (erase c ?b) else Inl IndexError)"
    by (simp add: erase_def Let_def)
  also have "\<dots> = on_result (erase c) (adjust_loop m (i # rest) a)"
    by (simp add: Cons.IH Let_def)
  finally show ?case .
qed

lemma erase_adjust_weight_map:
  "adjust_weight_map (erase c a) d is = on_result (erase c) (adjust_weight_map a d is)"
proof -
  have e: "(erase c a1)\<lparr>weight_map := r\<rparr> = erase c (a1\<lparr>weight_map := r\<rparr>)" for a1 :: "'a EARL_Agent" and r
    by (simp add: erase_def)
  have w: "weight_map (erase c a1) = weight_map a1" for a1 :: "'a EARL_Agent"
    by (simp add: erase_def)
  show ?thesis
    unfolding adjust_weight_map_def
    by (simp add: erase_adjust_loop e w split: sum.splits)
qed

lemma erase_fields:
  "weight_map (erase c a) = weight_map a" "ticks (erase c a) = ticks a"
  "mutation_step (erase c a) = mutation_step a" "history (erase c a) = history a"
  "last_fitness (erase c a) = last_fitness a"
  "action_space (erase c a) = map (\<lambda>_. Inr) (action_space a)"
  "fitness_func (erase c a) = (\<lambda>w. Inr (c, w))"
  by (simp_all add: erase_def)

lemma erase_updates:
  "(erase c a)\<lparr>weight_map := r\<rparr> = erase c (a\<lparr>weight_map := r\<rparr>)"
  "(erase c a)\<lparr>last_fitness := f\<rparr> = erase c (a\<lparr>last_fitness := f\<rparr>)"
  "(erase c a)\<lparr>history := h\<rparr> = erase c (a\<lparr>history := h\<rparr>)"
  "(erase c a)\<lparr>ticks := t\<rparr> = erase c (a\<lparr>ticks := t\<rparr>)"
  by (simp_all add: erase_def)

lemma erase_sample_phase:
  assumes "\<forall>act\<in>set (action_space a2). \<forall>w. act w = Inr w"
  shows "(case sample_loop (action_space (erase c a2)) (enumerate 0 (weight_map (erase c a2))) []
                 (erase_world w2) of
            Inl e \<Rightarrow> Inl e
          | Inr (indices, w3) \<Rightarrow> Inr (erase c a2, indices, w3))
         = on_result (\<lambda>(a2, indices, w2). (erase c a2, indices, erase_world w2))
             (case sample_loop (action_space a2) (enumerate 0 (weight_map a2)) [] w2 of
                Inl e \<Rightarrow> Inl e
              | Inr (indices, w3) \<Rightarrow> Inr (a2, indices, w3))"
proof -
  have "sample_loop (action_space (erase c a2)) (enumerate 0 (weight_map (erase c a2))) []
          (erase_world w2)
        = on_result (map_prod id erase_world)
            (sample_loop (action_space a2) (enumerate 0 (weight_map a2)) [] w2)"
    using erase_sample_loop [OF assms] by (simp only: erase_fields)
  then show ?thesis
    by (cases "sample_loop (action_space a2) (enumerate 0 (weight_map a2)) [] w2") auto
qed

lemma erase_tick_sample:
  assumes "inert c a"
  shows "tick_sample (erase c a) (erase_world w)
           = on_result (\<lambda>(a2, indices, w2). (erase c a2, indices, erase_world w2))
               (tick_sample a w)"
proof -
  obtain a1 ms where a1: "adjust_mutation_step a = Inr a1" and a1_eq: "a1 = a\<lparr>mutation_step := ms\<rparr>"
    using adjust_mutation_step_Inr [of a] by blast
  have e1: "adjust_mutation_step (erase c a) = Inr (erase c a1)"
    by (simp add: erase_adjust_mutation_step a1)
  have pure: "\<forall>act\<in>set (action_space a2). \<forall>w. act w = Inr w"
    if "action_space a2 = action_space a" for a2 :: "'a EARL_Agent"
    using assms that by (simp add: inert_def)
  have acts1: "action_space a1 = action_space a" by (simp add: a1_eq)
  show ?thesis
  proof (cases "mutation_step a1 = 0")
    case True
    then show ?thesis by (simp add: tick_sample_def a1 e1 erase_fields(2,3))
  next
    case nz: False
    show ?thesis
    proof (cases "ticks a1 mod mutation_step a1 = 0")
      case False
      with nz show ?thesis
        by (simp add: tick_sample_def a1 e1 erase_fields(2,3)
                 erase_sample_phase [OF pure [OF acts1]])
    next
      case True
      show ?thesis
      proof (cases "mutate_weight_map a1 w")
        case (Inl e)
        then have "mutate_weight_map (erase c a1) (erase_world w) = Inl e"
          by (simp add: mutate_weight_map_def erase_mutate_loop erase_fields(1))
        with nz True Inl show ?thesis
          by (simp add: tick_sample_def a1 e1 erase_fields(2,3))
      next
        case (Inr p)
        obtain a2 w2 where p: "p = (a2, w2)" by (cases p)
        from Inr p have m: "mutate_weight_map a1 w = Inr (a2, w2)" by simp
        then have em: "mutate_weight_map (erase c a1) (erase_world w)
                         = Inr (erase c a2, erase_world w2)"
          by (simp add: mutate_weight_map_def erase_mutate_loop erase_fields(1))
        from mutate_weight_map_frame [OF m] have acts: "action_space a2 = action_space a"
          by (auto simp: a1_eq)
        from nz True show ?thesis
          by (simp add: tick_sample_def a1 e1 m em erase_fields(2,3)
                   erase_sample_phase [OF pure [OF acts]])
      qed
    qed
  qed
qed

lemma erase_history:
  "on_result (\<lambda>h. (erase c (a\<lparr>history := h, ticks := t\<rparr>), erase_world w)) r
     = on_result (map_prod (erase c) erase_world) (on_result (\<lambda>h. (a\<lparr>history := h, ticks := t\<rparr>, w)) r)"
  by (cases r) simp_all

lemma erase_tick_update:
  assumes "inert c a"
  shows "tick_update (erase c a) indices (erase_world w)
           = on_result (map_prod (erase c) erase_world) (tick_update a indices w)"
proof -
  from assms have f: "fitness_func a w = Inr (c, w)" by (simp add: inert_def)
  show ?thesis
  proof (cases "adjust_weight_map a (c - last_fitness a) indices")
    case (Inl e)
    then show ?thesis
      by (simp add: tick_update_def f erase_fields(5,7) erase_adjust_weight_map Let_def)
  next
    case (Inr a1)
    show ?thesis
    proof (cases "history_loop (c - last_fitness a > 0) indices (history a1)")
      case (Inl e)
      with Inr show ?thesis
        by (simp add: tick_update_def f erase_fields(5,7) erase_adjust_weight_map Let_def
                 erase_updates erase_fields(4))
    next
      case h: (Inr h)
      with Inr show ?thesis
        by (simp add: tick_update_def f erase_fields(5,7) erase_adjust_weight_map Let_def
                 erase_updates erase_fields(2,4))
    qed
  qed
qed

lemma tick_inert: "inert c a \<Longrightarrow> tick a w = Inr (a', w') \<Longrightarrow> inert c a'"
  by (auto simp: inert_def dest!: tick_frame)

lemma erase_tick:
  assumes "inert c a"
  shows "tick (erase c a) (erase_world w) = on_result (map_prod (erase c) erase_world) (tick a w)"
proof (cases "tick_sample a w")
  case (Inl e)
  then show ?thesis by (simp add: tick_def erase_tick_sample [OF assms])
next
  case (Inr p)
  obtain a2 indices w2 where p: "p = (a2, indices, w2)" by (cases p)
  from tick_sample_frame [of a w a2 indices w2] Inr p adjust_mutation_step_Inr [of a]
  have "action_space a2 = action_space a" "fitness_func a2 = fitness_func a" by auto
  with assms have "inert c a2" by (simp add: inert_def)
  from erase_tick_update [OF this] Inr p show ?thesis
    by (simp add: tick_def erase_tick_sample [OF assms])
qed

lemma erase_run_ticks:
  "inert c a \<Longrightarrow>
     run_ticks n (erase c a) (erase_world w)
       = on_result (map_prod (erase c) erase_world) (run_ticks n a w)"
proof (induction n arbitrary: a w)
  case 0
  then show ?case by simp
next
  case (Suc n)
  show ?case
  proof (cases "tick a w")
    case (Inl e)
    then show ?thesis by (simp add: erase_tick [OF Suc.prems])
  next
    case (Inr p)
    obtain a1 w1 where p: "p = (a1, w1)" by (cases p)
    from Inr p have t: "tick a w = Inr (a1, w1)" by simp
    from tick_inert [OF Suc.prems t] have "inert c a1" .
    from Suc.IH [OF this] t show ?thesis by (simp add: erase_tick [OF Suc.prems])
  qed
qed

lemma weights_of_erase:
  "weights_of (on_result (map_prod (erase c) erase_world) r) = weights_of r"
  by (cases r) (auto simp: weights_of_def erase_fields)


lemma erase_random_list:
  "random_list (map f xs) (erase_world w) = map_prod id erase_world (random_list xs w)"
proof (induction xs arbitrary: w)
  case Nil
  then show ?case by simp
next
  case (Cons x xs)
  obtain r w1 where r: "random_random w = (r, w1)" by (cases "random_random w")
  obtain rs w2 where rs: "random_list xs w1 = (rs, w2)" by (cases "random_list xs w1")
  show ?case by (simp add: erase_world_random r Cons.IH rs)
qed

lemma erase_init:
  assumes "\<forall>w. fit w = Inr (c, w)"
  shows "init (map (\<lambda>_. Inr) acts) (\<lambda>w. Inr (c, w)) wvt strength min_ms max_ms hbs hdf al
             (erase_world w)
           = on_result (map_prod (erase c) erase_world)
               (init acts fit wvt strength min_ms max_ms hbs hdf al w)"
proof -
  obtain rs w1 where rs: "random_list acts w = (rs, w1)" by (cases "random_list acts w")
  obtain wm where wm: "normalize_list rs = Inr wm" using normalize_list_total by blast
  from assms have f: "fit w1 = Inr (c, w1)" by simp
  show ?thesis
    by (simp add: init_def generate_weight_map_def erase_random_list rs wm f erase_def)
qed

lemma init_inert:
  assumes "\<forall>act\<in>set acts. \<forall>w. act w = Inr w" and "\<forall>w. fit w = Inr (c, w)"
  shows "\<exists>a0 w0. init acts fit wvt strength min_ms max_ms hbs hdf al w = Inr (a0, w0)
           \<and> inert c a0"
proof -
  obtain rs w1 where rs: "random_list acts w = (rs, w1)" by (cases "random_list acts w")
  obtain wm where wm: "normalize_list rs = Inr wm" using normalize_list_total by blast
  from assms(2) have f: "fit w1 = Inr (c, w1)" by simp
  show ?thesis using assms
    by (simp add: init_def generate_weight_map_def rs wm f inert_def)
qed

text \<open>
  Claim C9. Two agents are constructed with the same configuration scalars over action
  spaces of the same size, in worlds whose random sources hold the same draws at the same
  cursor; the environments, and their types, may differ. If every action of both returns
  leaving the world as it was and both fitness functions return the constant \<open>c\<close>, then
  both constructions succeed with the same weight map, and for every \<open>n\<close> the two runs of
  \<open>n\<close> ticks end alike: with the same exception, or with the same weight map.
\<close>

theorem seeded_runs_agree:
  assumes "length actsA = length actsB"
    and "\<forall>act\<in>set actsA. \<forall>w. act w = Inr w" and "\<forall>act\<in>set actsB. \<forall>w. act w = Inr w"
    and "\<forall>w. fitA w = Inr (c, w)" and "\<forall>w. fitB w = Inr (c, w)"
    and "draws wa = draws wb" and "cursor wa = cursor wb"
  shows "\<exists>a0 wa0 b0 wb0.
           init actsA fitA wvt strength min_ms max_ms hbs hdf al wa = Inr (a0, wa0)
           \<and> init actsB fitB wvt strength min_ms max_ms hbs hdf al wb = Inr (b0, wb0)
           \<and> weight_map a0 = weight_map b0
           \<and> (\<forall>n. weights_of (run_ticks n a0 wa0) = weights_of (run_ticks n b0 wb0))"
proof -
  from init_inert [OF assms(2,4)] obtain a0 wa0 where
    ia: "init actsA fitA wvt strength min_ms max_ms hbs hdf al wa = Inr (a0, wa0)"
    and na: "inert c a0" by blast
  from init_inert [OF assms(3,5)] obtain b0 wb0 where
    ib: "init actsB fitB wvt strength min_ms max_ms hbs hdf al wb = Inr (b0, wb0)"
    and nb: "inert c b0" by blast
  have acts: "map (\<lambda>_. Inr) actsA = (map (\<lambda>_. Inr) actsB :: unit action list)"
    using assms(1) by (simp add: map_replicate_const)
  have w: "erase_world wa = erase_world wb" using assms(6,7) by (simp add: erase_world_def)
  from erase_init [OF assms(4), of actsA wvt strength min_ms max_ms hbs hdf al wa] ia
  have ea: "init (map (\<lambda>_. Inr) actsA) (\<lambda>w. Inr (c, w)) wvt strength min_ms max_ms hbs hdf al
              (erase_world wa) = Inr (erase c a0, erase_world wa0)" by simp
  from erase_init [OF assms(5), of actsB wvt strength min_ms max_ms hbs hdf al wb] ib
  have eb: "init (map (\<lambda>_. Inr) actsB) (\<lambda>w. Inr (c, w)) wvt strength min_ms max_ms hbs hdf al
              (erase_world wb) = Inr (erase c b0, erase_world wb0)" by simp
  from ea eb acts w have eq: "erase c a0 = erase c b0" "erase_world wa0 = erase_world wb0"
    by simp_all
  from eq(1) have w0: "weight_map a0 = weight_map b0"
    by (metis erase_fields(1))
  have "weights_of (run_ticks n a0 wa0) = weights_of (run_ticks n b0 wb0)" for n
  proof -
    have "weights_of (run_ticks n a0 wa0)
            = weights_of (run_ticks n (erase c a0) (erase_world wa0))"
      by (simp add: erase_run_ticks [OF na] weights_of_erase)
    also have "\<dots> = weights_of (run_ticks n (erase c b0) (erase_world wb0))"
      by (simp add: eq)
    also have "\<dots> = weights_of (run_ticks n b0 wb0)"
      by (simp add: erase_run_ticks [OF nb] weights_of_erase)
    finally show ?thesis .
  qed
  with ia ib w0 show ?thesis by blast
qed

theorem seeded_runs_agree_witness:
  "\<exists>a0 wa0 b0 wb0.
     init [Inr, Inr, Inr] (\<lambda>w. Inr (5, w)) (1 / 2) (1 / 10) 3 10 (1 / 10) (9 / 10) 1 (still (1 / 4))
       = Inr (a0, wa0)
     \<and> init [Inr, Inr, Inr] (\<lambda>w. Inr (5, w)) (1 / 2) (1 / 10) 3 10 (1 / 10) (9 / 10) 1
         \<lparr>env = True, draws = (\<lambda>_. 1 / 4), cursor = 0\<rparr> = Inr (b0, wb0)
     \<and> weight_map a0 = weight_map b0
     \<and> weights_of (run_ticks 7 a0 wa0) = weights_of (run_ticks 7 b0 wb0)"
proof -
  have "\<exists>a0 wa0 b0 wb0.
     init [Inr, Inr, Inr] (\<lambda>w. Inr (5, w)) (1 / 2) (1 / 10) 3 10 (1 / 10) (9 / 10) 1 (still (1 / 4))
       = Inr (a0, wa0)
     \<and> init [Inr, Inr, Inr] (\<lambda>w. Inr (5, w)) (1 / 2) (1 / 10) 3 10 (1 / 10) (9 / 10) 1
         \<lparr>env = True, draws = (\<lambda>_. 1 / 4), cursor = 0\<rparr> = Inr (b0, wb0)
     \<and> weight_map a0 = weight_map b0
     \<and> (\<forall>n. weights_of (run_ticks n a0 wa0) = weights_of (run_ticks n b0 wb0))"
    by (rule seeded_runs_agree) (simp_all add: still_def)
  then show ?thesis by blast
qed

end
